theory Spec2Isabelle
  imports Complex_Main "HOL-Library.Sublist"
begin

section \<open>Scene boundary extraction: the embedding\<close>

text \<open>
  A shallow embedding of \<^verbatim>\<open>extract-scene-boundaries.py\<close>. Conventions:

  \<^item> A Python \<^verbatim>\<open>str\<close> is a \<^typ>\<open>string\<close> of ASCII code points. Lowercasing, the
    regular expression class \<^verbatim>\<open>\w\<close>, \<^verbatim>\<open>isdigit\<close>, \<^verbatim>\<open>isspace\<close> and \<^verbatim>\<open>title\<close> are
    written out for ASCII; a character above 127 is left alone by the case
    mappings and belongs to no class.
  \<^item> Timestamps are \<^typ>\<open>real\<close> numbers and arithmetic on them is exact; Python's
    \<^verbatim>\<open>round(x, 2)\<close> is rounding to the nearest hundredth, ties to even.
  \<^item> A raised exception and \<^verbatim>\<open>sys.exit\<close> are values of the type \<open>py_error\<close>; a fallible
    function returns \<open>py_error + 'a\<close>.
  \<^item> File reading is outside the model: the transcript words are what
    \<^verbatim>\<open>load_transcript\<close> returned and the phrases what
    \<^verbatim>\<open>get_scene_opening_phrases\<close> returned. What the run prints to the
    diagnostic stream is a list of lines.
  \<^item> The cursor \<^verbatim>\<open>start_from\<close> is a natural number: the program only ever
    passes 0 or an index of the transcript.
\<close>

subsection \<open>Data\<close>

datatype py_error = IndexError | KeyError string | SystemExit nat string

record transcript_word =
  word :: string
  start :: real
  end_time :: real

record boundary =
  number :: nat
  slug :: string
  start_seconds :: real
  opening_phrase :: string
  duration_seconds :: "real option"

record assembler_state =
  boundaries :: "boundary list"
  last_end :: real
  search_from :: nat
  stderr :: "string list"

text \<open>Which formatter \<^verbatim>\<open>main\<close> called, with the text it printed.\<close>

datatype rendering = Json string | Typescript string | Table string

text \<open>The conversions of the Python runtime that the formatters use and that are not part
  of the program: \<^verbatim>\<open>f"{x:.2f}"\<close>, \<^verbatim>\<open>f"{x}"\<close> for a float and
  \<^verbatim>\<open>json.dumps(boundaries, indent=2)\<close>. They are parameters of the embedding.\<close>

record runtime =
  format_2f :: "real \<Rightarrow> string"
  str_float :: "real \<Rightarrow> string"
  json_dumps :: "boundary list \<Rightarrow> string"

text \<open>What \<^verbatim>\<open>main\<close> is given: the parsed arguments, whether the two paths exist, and what
  the two loaders read from them.\<close>

record invocation =
  scenes_dir :: string
  transcript_path :: string
  json :: bool
  typescript :: bool
  scenes_dir_exists :: bool
  transcript_exists :: bool
  loaded_words :: "transcript_word list"
  loaded_phrases :: "(string \<times> string) list"

subsection \<open>Strings\<close>

definition is_ascii_upper :: "char \<Rightarrow> bool" where
  "is_ascii_upper c = (65 \<le> (of_char c :: nat) \<and> (of_char c :: nat) \<le> 90)"

definition is_ascii_lower :: "char \<Rightarrow> bool" where
  "is_ascii_lower c = (97 \<le> (of_char c :: nat) \<and> (of_char c :: nat) \<le> 122)"

definition is_ascii_digit :: "char \<Rightarrow> bool" where
  "is_ascii_digit c = (48 \<le> (of_char c :: nat) \<and> (of_char c :: nat) \<le> 57)"

definition is_space :: "char \<Rightarrow> bool" where
  "is_space c = ((9 \<le> (of_char c :: nat) \<and> (of_char c :: nat) \<le> 13)
     \<or> (28 \<le> (of_char c :: nat) \<and> (of_char c :: nat) \<le> 32))"

definition lower_char :: "char \<Rightarrow> char" where
  "lower_char c = (if is_ascii_upper c then char_of (of_char c + 32 :: nat) else c)"

definition upper_char :: "char \<Rightarrow> char" where
  "upper_char c = (if is_ascii_lower c then char_of (of_char c - 32 :: nat) else c)"

definition is_word_char :: "char \<Rightarrow> bool" where
  "is_word_char c = (is_ascii_digit c \<or> is_ascii_upper c \<or> is_ascii_lower c \<or> c = CHR ''_'')"

text \<open>\<^verbatim>\<open>re.sub(r"[^\w]", "", word.lower())\<close>\<close>

definition normalize_word :: "string \<Rightarrow> string" where
  "normalize_word w = filter is_word_char (map lower_char w)"

text \<open>\<^verbatim>\<open>str.split()\<close> with no separator: the maximal runs of non-whitespace.\<close>

fun split_acc :: "string \<Rightarrow> string \<Rightarrow> string list" where
  "split_acc cur [] = (if cur = [] then [] else [cur])"
| "split_acc cur (c # cs) =
     (if is_space c then (if cur = [] then split_acc [] cs else cur # split_acc [] cs)
      else split_acc (cur @ [c]) cs)"

definition split_whitespace :: "string \<Rightarrow> string list" where
  "split_whitespace s = split_acc [] s"

text \<open>\<^verbatim>\<open>str.split(sep)\<close> with a one-character separator: empty pieces are kept.\<close>

fun split_on :: "char \<Rightarrow> string \<Rightarrow> string list" where
  "split_on sep [] = [[]]"
| "split_on sep (c # cs) =
     (if c = sep then [] # split_on sep cs
      else (case split_on sep cs of [] \<Rightarrow> [[c]] | p # ps \<Rightarrow> (c # p) # ps))"

fun join :: "string \<Rightarrow> string list \<Rightarrow> string" where
  "join sep [] = []"
| "join sep [x] = x"
| "join sep (x # y # ys) = x @ sep @ join sep (y # ys)"

definition isdigit :: "string \<Rightarrow> bool" where
  "isdigit s = (s \<noteq> [] \<and> list_all is_ascii_digit s)"

text \<open>\<^verbatim>\<open>str.title()\<close>: a letter that follows a letter is lowercased, any other
  letter is uppercased.\<close>

fun title_from :: "bool \<Rightarrow> string \<Rightarrow> string" where
  "title_from previous_is_cased [] = []"
| "title_from previous_is_cased (c # cs) =
     (if previous_is_cased then lower_char c else upper_char c)
       # title_from (is_ascii_upper c \<or> is_ascii_lower c) cs"

definition title :: "string \<Rightarrow> string" where
  "title s = title_from False s"

fun str_nat :: "nat \<Rightarrow> string" where
  "str_nat n = (if n < 10 then [char_of (48 + n)] else str_nat (n div 10) @ [char_of (48 + n mod 10)])"

definition zfill :: "nat \<Rightarrow> string \<Rightarrow> string" where
  "zfill width s = replicate (width - length s) (CHR ''0'') @ s"

definition ljust :: "nat \<Rightarrow> string \<Rightarrow> string" where
  "ljust width s = s @ replicate (width - length s) (CHR '' '')"

definition rjust :: "nat \<Rightarrow> string \<Rightarrow> string" where
  "rjust width s = replicate (width - length s) (CHR '' '') @ s"

subsection \<open>Numbers\<close>

definition round_half_even :: "real \<Rightarrow> int" where
  "round_half_even y =
     (let f = \<lfloor>y\<rfloor>; d = y - of_int f
      in if d < 1 / 2 then f else if 1 / 2 < d then f + 1 else if even f then f else f + 1)"

text \<open>\<^verbatim>\<open>round(x, 2)\<close>\<close>

definition round2 :: "real \<Rightarrow> real" where
  "round2 x = of_int (round_half_even (x * 100)) / 100"

subsection \<open>PhraseMatcher: \<^verbatim>\<open>find_phrase_in_transcript\<close>\<close>

text \<open>The inner loop over \<^verbatim>\<open>enumerate(phrase_normalized)\<close> at candidate \<open>i\<close>; the third
  argument is \<open>i + j\<close>. Reading \<^verbatim>\<open>words[i + j]\<close> out of range raises.\<close>

fun phrase_matches :: "string list \<Rightarrow> transcript_word list \<Rightarrow> nat \<Rightarrow> py_error + bool" where
  "phrase_matches [] words k = Inr True"
| "phrase_matches (pw # pws) words k =
     (if k < length words then
        (if prefix (take 3 pw) (normalize_word (word (words ! k)))
         then phrase_matches pws words (Suc k) else Inr False)
      else Inl IndexError)"

text \<open>The outer loop over \<^verbatim>\<open>range(start_from, len(words) - len(phrase_normalized) + 1)\<close>.\<close>

fun scan :: "string list \<Rightarrow> transcript_word list \<Rightarrow> nat list \<Rightarrow> py_error + real option" where
  "scan phrase_normalized words [] = Inr None"
| "scan phrase_normalized words (i # rest) =
     (case phrase_matches phrase_normalized words i of
        Inl e \<Rightarrow> Inl e
      | Inr match \<Rightarrow>
          if match then (if i < length words then Inr (Some (start (words ! i))) else Inl IndexError)
          else scan phrase_normalized words rest)"

text \<open>The upper bound \<^verbatim>\<open>len(words) - len(phrase_normalized) + 1\<close> is an integer that may be
  zero or negative, and the range is then empty; on naturals
  \<open>Suc (length words) - length phrase_normalized\<close> is 0 in exactly those cases.\<close>

definition find_phrase_in_transcript ::
    "string \<Rightarrow> transcript_word list \<Rightarrow> nat \<Rightarrow> py_error + real option" where
  "find_phrase_in_transcript phrase words start_from =
     (let phrase_words = split_whitespace phrase;
          phrase_normalized = map normalize_word phrase_words
      in scan phrase_normalized words
           [start_from ..< Suc (length words) - length phrase_normalized])"

text \<open>The matching rule in the specification's words: at candidate index \<open>i\<close>, for every
  offset \<open>j\<close> of the phrase, the normalized transcript word at \<open>i + j\<close> starts with the
  first three characters of the normalized \<open>j\<close>-th token (all of it when it is shorter).\<close>

definition prefix_rule :: "string \<Rightarrow> transcript_word list \<Rightarrow> nat \<Rightarrow> bool" where
  "prefix_rule phrase words i =
     (\<forall>j \<in> {0 ..< length (split_whitespace phrase)}.
        prefix (take 3 (normalize_word (split_whitespace phrase ! j)))
               (normalize_word (word (words ! (i + j)))))"

text \<open>The run of transcript words starting at \<open>k\<close> whose normalized forms are exactly the
  normalized tokens of the phrase.\<close>

definition exact_run :: "string \<Rightarrow> transcript_word list \<Rightarrow> nat \<Rightarrow> bool" where
  "exact_run phrase words k =
     (k + length (split_whitespace phrase) \<le> length words \<and>
      map (\<lambda>w. normalize_word (word w)) (take (length (split_whitespace phrase)) (drop k words))
        = map normalize_word (split_whitespace phrase))"

subsection \<open>BoundaryAssembler: \<^verbatim>\<open>extract_boundaries\<close>\<close>

definition apostrophe :: char where
  "apostrophe = CHR 0x27"

definition warning_line :: "string \<Rightarrow> string \<Rightarrow> string" where
  "warning_line sl phrase =
     ''Warning: Could not find scene '' @ [apostrophe] @ sl @ [apostrophe]
       @ '' starting with '' @ [apostrophe] @ phrase @ [apostrophe]"

text \<open>\<^verbatim>\<open>next((j for j, w in enumerate(words) if w["start"] >= start_time + 1), search_from)\<close>\<close>

definition next_search_from :: "transcript_word list \<Rightarrow> real \<Rightarrow> nat \<Rightarrow> nat" where
  "next_search_from words start_time cursor =
     (case find (\<lambda>(j, w). start_time + 1 \<le> start w) (enumerate 0 words) of
        Some (j, w) \<Rightarrow> j
      | None \<Rightarrow> cursor)"

text \<open>One pass of the loop body for scene \<open>(i, (slug, phrase))\<close>.\<close>

definition scene_step ::
    "transcript_word list \<Rightarrow> assembler_state \<Rightarrow> nat \<times> string \<times> string \<Rightarrow> py_error + assembler_state" where
  "scene_step words st scene =
     (case scene of (i, sl, phrase) \<Rightarrow>
        (case find_phrase_in_transcript phrase words (search_from st) of
           Inl e \<Rightarrow> Inl e
         | Inr None \<Rightarrow>
             Inr \<lparr>boundaries = boundaries st @
                     [\<lparr>number = i + 1, slug = sl, start_seconds = last_end st,
                       opening_phrase = phrase, duration_seconds = None\<rparr>],
                  last_end = last_end st,
                  search_from = search_from st,
                  stderr = stderr st @ [warning_line sl phrase]\<rparr>
         | Inr (Some start_time) \<Rightarrow>
             Inr \<lparr>boundaries = boundaries st @
                     [\<lparr>number = i + 1, slug = sl, start_seconds = start_time,
                       opening_phrase = phrase, duration_seconds = None\<rparr>],
                  last_end = start_time,
                  search_from = next_search_from words start_time (search_from st),
                  stderr = stderr st\<rparr>))"

fun assemble ::
    "transcript_word list \<Rightarrow> assembler_state \<Rightarrow> (nat \<times> string \<times> string) list \<Rightarrow> py_error + assembler_state" where
  "assemble words st [] = Inr st"
| "assemble words st (scene # rest) =
     (case scene_step words st scene of Inl e \<Rightarrow> Inl e | Inr st' \<Rightarrow> assemble words st' rest)"

definition initial_state :: assembler_state where
  "initial_state = \<lparr>boundaries = [], last_end = 0, search_from = 0, stderr = []\<rparr>"

text \<open>The body of the duration loop at index \<open>i\<close>: only \<^verbatim>\<open>duration_seconds\<close> of
  \<^verbatim>\<open>boundaries[i]\<close> is written.\<close>

definition set_duration :: "real \<Rightarrow> boundary list \<Rightarrow> nat \<Rightarrow> boundary list" where
  "set_duration total_duration bs i =
     bs[i := (bs ! i)\<lparr>duration_seconds :=
        Some (if i + 1 < length bs
              then round2 (start_seconds (bs ! (i + 1)) - start_seconds (bs ! i))
              else round2 (total_duration - start_seconds (bs ! i)))\<rparr>]"

definition calculate_durations :: "real \<Rightarrow> boundary list \<Rightarrow> boundary list" where
  "calculate_durations total_duration bs =
     fold (\<lambda>i acc. set_duration total_duration acc i) [0 ..< length bs] bs"

definition total_duration_of :: "transcript_word list \<Rightarrow> real" where
  "total_duration_of words = (if words \<noteq> [] then end_time (last words) else 0)"

text \<open>The result is the boundary list together with the lines written to the diagnostic
  stream.\<close>

definition extract_boundaries ::
    "transcript_word list \<Rightarrow> (string \<times> string) list \<Rightarrow> py_error + (boundary list \<times> string list)" where
  "extract_boundaries words phrases =
     (if words = [] then Inl (SystemExit 1 ''Error: No words found in transcript'')
      else if phrases = [] then Inl (SystemExit 1 ''Error: No scene files found'')
      else (case assemble words initial_state (enumerate 0 phrases) of
              Inl e \<Rightarrow> Inl e
            | Inr st \<Rightarrow>
                Inr (calculate_durations (total_duration_of words) (boundaries st), stderr st)))"

subsection \<open>Formatter\<close>

definition newline :: char where
  "newline = CHR 0x0A"

text \<open>\<^verbatim>\<open>b["duration_seconds"]\<close>: the key is missing until the duration loop has set it.\<close>

definition get_duration :: "boundary \<Rightarrow> py_error + real" where
  "get_duration b =
     (case duration_seconds b of
        None \<Rightarrow> Inl (KeyError ''duration_seconds'')
      | Some d \<Rightarrow> Inr d)"

fun table_rows :: "runtime \<Rightarrow> string list \<Rightarrow> boundary list \<Rightarrow> py_error + string list" where
  "table_rows rt lines [] = Inr lines"
| "table_rows rt lines (b # bs) =
     (case get_duration b of
        Inl e \<Rightarrow> Inl e
      | Inr d \<Rightarrow>
          table_rows rt
            (lines @ [ljust 4 (str_nat (number b)) @ '' '' @ ljust 30 (slug b) @ '' ''
                        @ rjust 7 (format_2f rt (start_seconds b)) @ ''s ''
                        @ rjust 9 (format_2f rt d) @ ''s''])
            bs)"

definition format_table :: "runtime \<Rightarrow> boundary list \<Rightarrow> real \<Rightarrow> py_error + string" where
  "format_table rt bs total_duration =
     (case table_rows rt
             [''Scene Boundaries'',
              replicate 60 (CHR ''=''),
              ljust 4 ''#'' @ '' '' @ ljust 30 ''Slug'' @ '' '' @ rjust 8 ''Start'' @ '' ''
                @ rjust 10 ''Duration'',
              replicate 60 (CHR ''-'')]
             bs of
        Inl e \<Rightarrow> Inl e
      | Inr lines \<Rightarrow>
          Inr (join [newline]
                 (lines @ [replicate 60 (CHR ''-''),
                           ljust 35 ''Total'' @ '' '' @ rjust 18 (format_2f rt total_duration) @ ''s''])))"

definition format_json :: "runtime \<Rightarrow> boundary list \<Rightarrow> string" where
  "format_json rt bs = json_dumps rt bs"

text \<open>Lines 171 to 178: the number prefix and the name parts of a slug. \<^verbatim>\<open>parts[0]\<close>
  raises on an empty list.\<close>

definition slug_name_parts :: "boundary \<Rightarrow> py_error + (string \<times> string list)" where
  "slug_name_parts b =
     (case split_on (CHR ''-'') (slug b) of
        [] \<Rightarrow> Inl IndexError
      | p # ps \<Rightarrow>
          if isdigit p then Inr (p, ps)
          else Inr (zfill 2 (str_nat (number b)), p # ps))"

definition component_name :: "string \<Rightarrow> string list \<Rightarrow> string" where
  "component_name num name_parts = ''Scene'' @ num @ concat (map title name_parts)"

definition typescript_entry :: "runtime \<Rightarrow> boundary \<Rightarrow> py_error + string list" where
  "typescript_entry rt b =
     (case slug_name_parts b of
        Inl e \<Rightarrow> Inl e
      | Inr (num, name_parts) \<Rightarrow>
          (case get_duration b of
             Inl e \<Rightarrow> Inl e
           | Inr d \<Rightarrow>
               Inr [''  {'',
                    ''    number: '' @ str_nat (number b) @ '','',
                    ''    slug: '' @ [apostrophe] @ join ''-'' name_parts @ [apostrophe] @ '','',
                    ''    durationSeconds: '' @ str_float rt d @ '',  // ''
                      @ format_2f rt (start_seconds b) @ ''s - ''
                      @ format_2f rt (start_seconds b + d) @ ''s'',
                    ''    component: '' @ component_name num name_parts @ '','',
                    ''  },'']))"

fun typescript_loop :: "runtime \<Rightarrow> string list \<Rightarrow> boundary list \<Rightarrow> py_error + string list" where
  "typescript_loop rt lines [] = Inr lines"
| "typescript_loop rt lines (b # bs) =
     (case typescript_entry rt b of
        Inl e \<Rightarrow> Inl e
      | Inr entry \<Rightarrow> typescript_loop rt (lines @ entry) bs)"

definition typescript_header :: "string list" where
  "typescript_header =
     [''// Scene timing data (at 30fps)'',
      ''// Timings extracted from full-narration.wav transcript'',
      ''const FPS = 30;'',
      ''const scenes = ['']"

definition format_typescript :: "runtime \<Rightarrow> boundary list \<Rightarrow> py_error + string" where
  "format_typescript rt bs =
     (case typescript_loop rt typescript_header bs of
        Inl e \<Rightarrow> Inl e
      | Inr lines \<Rightarrow> Inr (join [newline] (lines @ [''];''])))"

subsection \<open>\<^verbatim>\<open>main\<close>\<close>

text \<open>\<^verbatim>\<open>sum(b["duration_seconds"] for b in boundaries)\<close>\<close>

fun sum_durations :: "boundary list \<Rightarrow> py_error + real" where
  "sum_durations [] = Inr 0"
| "sum_durations (b # bs) =
     (case get_duration b of
        Inl e \<Rightarrow> Inl e
      | Inr d \<Rightarrow> (case sum_durations bs of Inl e \<Rightarrow> Inl e | Inr s \<Rightarrow> Inr (d + s)))"

text \<open>Lines 241 to 250: the total is computed first, then one formatter is chosen.\<close>

definition print_output :: "runtime \<Rightarrow> bool \<Rightarrow> bool \<Rightarrow> boundary list \<Rightarrow> py_error + rendering" where
  "print_output rt json_flag typescript_flag bs =
     (case sum_durations bs of
        Inl e \<Rightarrow> Inl e
      | Inr total_duration \<Rightarrow>
          if json_flag then Inr (Json (format_json rt bs))
          else if typescript_flag then
            (case format_typescript rt bs of Inl e \<Rightarrow> Inl e | Inr out \<Rightarrow> Inr (Typescript out))
          else
            (case format_table rt bs total_duration of Inl e \<Rightarrow> Inl e | Inr out \<Rightarrow> Inr (Table out)))"

definition main :: "runtime \<Rightarrow> invocation \<Rightarrow> py_error + (rendering \<times> string list)" where
  "main rt call =
     (if \<not> scenes_dir_exists call
      then Inl (SystemExit 1 (''Error: Scenes directory not found: '' @ scenes_dir call))
      else if \<not> transcript_exists call
      then Inl (SystemExit 1 (''Error: Transcript not found: '' @ transcript_path call))
      else (case extract_boundaries (loaded_words call) (loaded_phrases call) of
              Inl e \<Rightarrow> Inl e
            | Inr (bs, diagnostics) \<Rightarrow>
                (case print_output rt (json call) (typescript call) bs of
                   Inl e \<Rightarrow> Inl e
                 | Inr out \<Rightarrow> Inr (out, diagnostics))))"

section \<open>Properties\<close>

subsection \<open>Normalization\<close>



subsection \<open>PhraseMatcher\<close>

lemma ball_upt_Suc:
  "(\<forall>j \<in> {0 ..< Suc n}. P j) = (P 0 \<and> (\<forall>j \<in> {0 ..< n}. P (Suc j)))"
proof
  assume h: "\<forall>j \<in> {0 ..< Suc n}. P j"
  show "P 0 \<and> (\<forall>j \<in> {0 ..< n}. P (Suc j))"
    using h by simp
next
  assume h: "P 0 \<and> (\<forall>j \<in> {0 ..< n}. P (Suc j))"
  show "\<forall>j \<in> {0 ..< Suc n}. P j"
  proof
    fix j assume "j \<in> {0 ..< Suc n}"
    then show "P j" using h by (cases j) simp_all
  qed
qed

lemma phrase_matches_eq:
  "k + length pn \<le> length words \<Longrightarrow>
   phrase_matches pn words k =
     Inr (\<forall>j \<in> {0 ..< length pn}. prefix (take 3 (pn ! j)) (normalize_word (word (words ! (k + j)))))"
proof (induction pn arbitrary: k)
  case Nil
  then show ?case by simp
next
  case (Cons pw pws)
  from Cons.prems have k: "k < length words" and rest: "Suc k + length pws \<le> length words"
    by simp_all
  show ?case
    using k Cons.IH [OF rest] by (simp add: ball_upt_Suc del: atLeastLessThan_iff)
qed

lemma prefix_rule_tokens:
  "prefix_rule phrase words i =
     (\<forall>j \<in> {0 ..< length (map normalize_word (split_whitespace phrase))}.
        prefix (take 3 (map normalize_word (split_whitespace phrase) ! j))
               (normalize_word (word (words ! (i + j)))))"
  by (simp add: prefix_rule_def)

lemma phrase_matches_rule:
  "i + length (split_whitespace phrase) \<le> length words \<Longrightarrow>
   phrase_matches (map normalize_word (split_whitespace phrase)) words i = Inr (prefix_rule phrase words i)"
  using phrase_matches_eq [of i "map normalize_word (split_whitespace phrase)" words]
  by (simp only: prefix_rule_tokens length_map)

lemma scan_find:
  assumes "\<forall>i \<in> set idxs. i + length (split_whitespace phrase) \<le> length words \<and> i < length words"
  shows "scan (map normalize_word (split_whitespace phrase)) words idxs =
           Inr (map_option (\<lambda>i. start (words ! i)) (find (prefix_rule phrase words) idxs))"
  using assms
proof (induction idxs)
  case Nil
  then show ?case by simp
next
  case (Cons i rest)
  then show ?case by (simp add: phrase_matches_rule)
qed

lemma find_upt_Some:
  "(find P [a ..< b] = Some i) = (a \<le> i \<and> i < b \<and> P i \<and> (\<forall>k. a \<le> k \<and> k < i \<longrightarrow> \<not> P k))"
proof -
  have "(find P [a ..< b] = Some i) =
        (\<exists>m < length [a ..< b]. P ([a ..< b] ! m) \<and> i = [a ..< b] ! m \<and> (\<forall>j < m. \<not> P ([a ..< b] ! j)))"
    by (rule find_Some_iff)
  also have "\<dots> = (a \<le> i \<and> i < b \<and> P i \<and> (\<forall>k. a \<le> k \<and> k < i \<longrightarrow> \<not> P k))"
  proof
    assume "\<exists>m < length [a ..< b]. P ([a ..< b] ! m) \<and> i = [a ..< b] ! m \<and> (\<forall>j < m. \<not> P ([a ..< b] ! j))"
    then obtain m where m: "m < b - a" "P (a + m)" "i = a + m" "\<forall>j < m. \<not> P (a + j)"
      by auto
    have "\<not> P k" if "a \<le> k \<and> k < i" for k
    proof -
      from that m(3) have "k - a < m" "k = a + (k - a)" by arith+
      with m(4) show ?thesis by metis
    qed
    with m show "a \<le> i \<and> i < b \<and> P i \<and> (\<forall>k. a \<le> k \<and> k < i \<longrightarrow> \<not> P k)" by auto
  next
    assume r: "a \<le> i \<and> i < b \<and> P i \<and> (\<forall>k. a \<le> k \<and> k < i \<longrightarrow> \<not> P k)"
    then have "i - a < length [a ..< b] \<and> P ([a ..< b] ! (i - a)) \<and> i = [a ..< b] ! (i - a)
        \<and> (\<forall>j < i - a. \<not> P ([a ..< b] ! j))"
      by auto
    then show "\<exists>m < length [a ..< b]. P ([a ..< b] ! m) \<and> i = [a ..< b] ! m \<and> (\<forall>j < m. \<not> P ([a ..< b] ! j))"
      by blast
  qed
  finally show ?thesis .
qed


lemma find_phrase_find:
  assumes "split_whitespace phrase \<noteq> []"
  shows "find_phrase_in_transcript phrase words cursor =
     Inr (map_option (\<lambda>i. start (words ! i))
            (find (prefix_rule phrase words) [cursor ..< Suc (length words) - length (split_whitespace phrase)]))"
proof -
  have "\<forall>i \<in> set [cursor ..< Suc (length words) - length (split_whitespace phrase)].
          i + length (split_whitespace phrase) \<le> length words \<and> i < length words"
    using assms by (cases "split_whitespace phrase") auto
  then show ?thesis
    by (simp add: find_phrase_in_transcript_def Let_def scan_find)
qed

lemma find_phrase_no_tokens:
  assumes "split_whitespace phrase = []"
  shows "find_phrase_in_transcript phrase words cursor =
     (if cursor < length words then Inr (Some (start (words ! cursor)))
      else if cursor = length words then Inl IndexError else Inr None)"
proof -
  have eq: "find_phrase_in_transcript phrase words cursor =
              scan [] words [cursor ..< Suc (length words)]"
    using assms by (simp add: find_phrase_in_transcript_def Let_def del: upt_Suc)
  show ?thesis
  proof (cases "cursor \<le> length words")
    case True
    then have "[cursor ..< Suc (length words)] = cursor # [Suc cursor ..< Suc (length words)]"
      by (simp add: upt_conv_Cons del: upt_Suc)
    then have "scan [] words [cursor ..< Suc (length words)] =
        (if cursor < length words then Inr (Some (start (words ! cursor))) else Inl IndexError)"
      by (simp del: upt_Suc)
    with True eq show ?thesis by auto
  next
    case False
    then have "[cursor ..< Suc (length words)] = []" by simp
    with False eq show ?thesis by simp
  qed
qed

lemma prefix_rule_no_tokens: "split_whitespace phrase = [] \<Longrightarrow> prefix_rule phrase words i"
  by (simp add: prefix_rule_def)

lemma find_phrase_Some_iff:
  assumes "split_whitespace phrase \<noteq> [] \<or> cursor \<noteq> length words"
  shows "(find_phrase_in_transcript phrase words cursor = Inr (Some t)) =
     (\<exists>i. cursor \<le> i \<and> i + length (split_whitespace phrase) \<le> length words
        \<and> prefix_rule phrase words i
        \<and> (\<forall>k. cursor \<le> k \<and> k < i \<longrightarrow> \<not> prefix_rule phrase words k)
        \<and> t = start (words ! i))"
proof (cases "split_whitespace phrase = []")
  case True
  with assms have ne: "cursor \<noteq> length words" by simp
  show ?thesis
  proof (cases "cursor < length words")
    case c: True
    have "(\<exists>i. cursor \<le> i \<and> i \<le> length words \<and> (\<forall>k. cursor \<le> k \<and> k < i \<longrightarrow> False) \<and> t = start (words ! i))
        = (t = start (words ! cursor))"
    proof
      assume "\<exists>i. cursor \<le> i \<and> i \<le> length words \<and> (\<forall>k. cursor \<le> k \<and> k < i \<longrightarrow> False) \<and> t = start (words ! i)"
      then obtain i where i: "cursor \<le> i" "\<forall>k. cursor \<le> k \<and> k < i \<longrightarrow> False" "t = start (words ! i)"
        by blast
      from i(1,2) have "i = cursor" by (metis le_neq_implies_less order_refl)
      with i(3) show "t = start (words ! cursor)" by simp
    next
      assume "t = start (words ! cursor)"
      with c show "\<exists>i. cursor \<le> i \<and> i \<le> length words \<and> (\<forall>k. cursor \<le> k \<and> k < i \<longrightarrow> False) \<and> t = start (words ! i)"
        by (intro exI [of _ cursor]) simp
    qed
    with True c show ?thesis
      by (auto simp add: find_phrase_no_tokens prefix_rule_no_tokens)
  next
    case c: False
    with ne have "length words < cursor" by simp
    with True show ?thesis
      by (auto simp add: find_phrase_no_tokens)
  qed
next
  case False
  have "i < Suc (length words) - length (split_whitespace phrase) \<longleftrightarrow>
        i + length (split_whitespace phrase) \<le> length words" for i
    by arith
  with False show ?thesis
    by (auto simp add: find_phrase_find find_upt_Some)
qed


lemma find_phrase_total:
  assumes "split_whitespace phrase \<noteq> [] \<or> cursor \<noteq> length words"
  shows "\<exists>r. find_phrase_in_transcript phrase words cursor = Inr r"
proof (cases "split_whitespace phrase = []")
  case True
  with assms show ?thesis by (auto simp add: find_phrase_no_tokens)
next
  case False
  then show ?thesis by (simp add: find_phrase_find)
qed




lemma exact_run_prefix_rule:
  assumes "exact_run phrase words k"
  shows "prefix_rule phrase words k"
proof -
  let ?n = "length (split_whitespace phrase)"
  from assms have len: "k + ?n \<le> length words"
    and eq: "map (\<lambda>w. normalize_word (word w)) (take ?n (drop k words))
               = map normalize_word (split_whitespace phrase)"
    by (simp_all add: exact_run_def)
  have "normalize_word (word (words ! (k + j))) = normalize_word (split_whitespace phrase ! j)"
    if "j < ?n" for j
  proof -
    from that len have "map (\<lambda>w. normalize_word (word w)) (take ?n (drop k words)) ! j
        = normalize_word (word (words ! (k + j)))"
      by simp
    moreover from that have "map normalize_word (split_whitespace phrase) ! j
        = normalize_word (split_whitespace phrase ! j)"
      by simp
    ultimately show ?thesis using eq by simp
  qed
  then show ?thesis
    by (simp add: prefix_rule_def take_is_prefix)
qed

text \<open>
  Claim C5 (as amended). If the normalized tokens of the phrase are exactly the normalized
  words of a run of the transcript that starts at a valid index \<open>k\<close> at or after the
  cursor, the search returns a start time: that of the first index between the cursor
  and \<open>k\<close> that satisfies the three-character prefix rule. It is the start time of the
  first word of the run when no index from the cursor up to \<open>k - 1\<close> satisfies the
  prefix rule.
\<close>

theorem exact_run_is_found:
  assumes "cursor \<le> k" and "k < length words" and "exact_run phrase words k"
  shows "(\<exists>i. cursor \<le> i \<and> i \<le> k \<and> prefix_rule phrase words i
            \<and> (\<forall>m. cursor \<le> m \<and> m < i \<longrightarrow> \<not> prefix_rule phrase words m)
            \<and> find_phrase_in_transcript phrase words cursor = Inr (Some (start (words ! i))))
       \<and> ((\<forall>m. cursor \<le> m \<and> m < k \<longrightarrow> \<not> prefix_rule phrase words m) \<longrightarrow>
            find_phrase_in_transcript phrase words cursor = Inr (Some (start (words ! k))))"
proof -
  let ?n = "length (split_whitespace phrase)"
  let ?Q = "\<lambda>i. cursor \<le> i \<and> prefix_rule phrase words i"
  define i0 where "i0 = (LEAST i. ?Q i)"
  from assms(3) have rule_k: "prefix_rule phrase words k"
    by (rule exact_run_prefix_rule)
  from assms(3) have len_k: "k + ?n \<le> length words"
    by (simp add: exact_run_def)
  from assms(1) rule_k have Qk: "?Q k" by simp
  then have Q0: "?Q i0" unfolding i0_def by (rule LeastI)
  from Qk have le: "i0 \<le> k" unfolding i0_def by (rule Least_le)
  have least: "\<not> prefix_rule phrase words m" if "cursor \<le> m \<and> m < i0" for m
    using that not_less_Least [of m ?Q] unfolding i0_def by blast
  from assms(1,2) have hyp: "split_whitespace phrase \<noteq> [] \<or> cursor \<noteq> length words"
    by simp
  from le len_k have len0: "i0 + ?n \<le> length words" by simp
  have found: "find_phrase_in_transcript phrase words cursor = Inr (Some (start (words ! i0)))"
    using find_phrase_Some_iff [OF hyp, of "start (words ! i0)"] Q0 len0 least by blast
  have "i0 = k" if "\<forall>m. cursor \<le> m \<and> m < k \<longrightarrow> \<not> prefix_rule phrase words m"
    using that Q0 le by (metis le_neq_implies_less)
  with found Q0 le least show ?thesis by blast
qed

theorem exact_run_is_found_witness:
  "find_phrase_in_transcript ''The cat''
     [\<lparr>word = ''a'', start = 0, end_time = 1\<rparr>,
      \<lparr>word = ''the'', start = 1, end_time = 2\<rparr>,
      \<lparr>word = ''cat.'', start = 2, end_time = 3\<rparr>] 0 = Inr (Some 1)"
proof -
  let ?W = "[\<lparr>word = ''a'', start = 0, end_time = 1\<rparr>,
             \<lparr>word = ''the'', start = 1, end_time = 2\<rparr>,
             \<lparr>word = ''cat.'', start = 2, end_time = 3\<rparr>]"
  have c: "(0::nat) \<le> 1" by simp
  have k: "1 < length ?W" by simp
  have run: "exact_run ''The cat'' ?W 1" by code_simp
  have r0: "\<not> prefix_rule ''The cat'' ?W 0" by code_simp
  have first: "\<forall>m. 0 \<le> m \<and> m < 1 \<longrightarrow> \<not> prefix_rule ''The cat'' ?W m"
    using r0 by simp
  from exact_run_is_found [OF c k run] first
  have "find_phrase_in_transcript ''The cat'' ?W 0 = Inr (Some (start (?W ! 1)))"
    by blast
  then show ?thesis by simp
qed

text \<open>
  Claim C5 as stated fails when an earlier index satisfies the prefix rule: the phrase
  \<^verbatim>\<open>the cat\<close> equals the run at index 2, and the search from 0 returns the start of
  index 0, where \<^verbatim>\<open>then cats\<close> matches by prefix.
\<close>

theorem exact_run_not_first_match:
  "exact_run ''the cat''
     [\<lparr>word = ''then'', start = 0, end_time = 1\<rparr>,
      \<lparr>word = ''cats'', start = 1, end_time = 2\<rparr>,
      \<lparr>word = ''the'', start = 2, end_time = 3\<rparr>,
      \<lparr>word = ''cat'', start = 3, end_time = 4\<rparr>] 2
   \<and> find_phrase_in_transcript ''the cat''
     [\<lparr>word = ''then'', start = 0, end_time = 1\<rparr>,
      \<lparr>word = ''cats'', start = 1, end_time = 2\<rparr>,
      \<lparr>word = ''the'', start = 2, end_time = 3\<rparr>,
      \<lparr>word = ''cat'', start = 3, end_time = 4\<rparr>] 0 = Inr (Some 0)"
  by code_simp

subsection \<open>BoundaryAssembler\<close>

lemma find_enumerate_Some:
  "(find (\<lambda>(j, w). P w) (enumerate 0 xs) = Some (j, w)) =
     (j < length xs \<and> w = xs ! j \<and> P (xs ! j) \<and> (\<forall>k < j. \<not> P (xs ! k)))"
  by (auto simp add: find_Some_iff nth_enumerate_eq)

lemma find_enumerate_None:
  "(find (\<lambda>(j, w). P w) (enumerate 0 xs) = None) = (\<forall>j < length xs. \<not> P (xs ! j))"
  by (auto simp add: find_None_iff in_set_enumerate_eq)

lemma next_search_from_none:
  assumes "\<forall>j < length words. start (words ! j) < t + 1"
  shows "next_search_from words t c = c"
proof -
  from assms have "\<forall>j < length words. \<not> t + 1 \<le> start (words ! j)"
    by (simp add: not_le)
  then have "find (\<lambda>(j, w). t + 1 \<le> start w) (enumerate 0 words) = None"
    by (simp only: find_enumerate_None)
  then show ?thesis by (simp add: next_search_from_def)
qed

lemma next_search_from_first:
  assumes "j < length words" and "t + 1 \<le> start (words ! j)"
  shows "next_search_from words t c < length words
       \<and> t + 1 \<le> start (words ! next_search_from words t c)
       \<and> (\<forall>k < next_search_from words t c. start (words ! k) < t + 1)"
proof (cases "find (\<lambda>(j, w). t + 1 \<le> start w) (enumerate 0 words)")
  case None
  then have "\<forall>j < length words. \<not> t + 1 \<le> start (words ! j)"
    by (simp only: find_enumerate_None)
  with assms show ?thesis by blast
next
  case (Some p)
  obtain m w where p: "p = (m, w)" by (cases p)
  with Some have "find (\<lambda>(j, w). t + 1 \<le> start w) (enumerate 0 words) = Some (m, w)"
    by simp
  then have "m < length words \<and> w = words ! m \<and> t + 1 \<le> start (words ! m)
      \<and> (\<forall>k < m. \<not> t + 1 \<le> start (words ! k))"
    by (simp add: find_enumerate_Some)
  moreover from Some p have "next_search_from words t c = m"
    by (simp add: next_search_from_def)
  ultimately show ?thesis by (simp add: not_le)
qed

lemma next_search_from_in_range:
  "c < length words \<Longrightarrow> next_search_from words t c < length words"
proof (cases "\<exists>j < length words. t + 1 \<le> start (words ! j)")
  case True
  then show ?thesis using next_search_from_first by blast
next
  case False
  assume "c < length words"
  moreover from False have "next_search_from words t c = c"
    by (intro next_search_from_none) (simp add: not_le)
  ultimately show ?thesis by simp
qed

lemma scene_step_miss:
  assumes "find_phrase_in_transcript phrase words (search_from st) = Inr None"
  shows "scene_step words st (i, sl, phrase) =
     Inr \<lparr>boundaries = boundaries st @
             [\<lparr>number = i + 1, slug = sl, start_seconds = last_end st,
               opening_phrase = phrase, duration_seconds = None\<rparr>],
          last_end = last_end st,
          search_from = search_from st,
          stderr = stderr st @ [warning_line sl phrase]\<rparr>"
  using assms by (simp add: scene_step_def)

lemma scene_step_match:
  assumes "find_phrase_in_transcript phrase words (search_from st) = Inr (Some t)"
  shows "scene_step words st (i, sl, phrase) =
     Inr \<lparr>boundaries = boundaries st @
             [\<lparr>number = i + 1, slug = sl, start_seconds = t,
               opening_phrase = phrase, duration_seconds = None\<rparr>],
          last_end = t,
          search_from = next_search_from words t (search_from st),
          stderr = stderr st\<rparr>"
  using assms by (simp add: scene_step_def)

text \<open>The facts about one pass that the loop lemmas need, whichever branch is taken.\<close>

lemma scene_step_facts:
  assumes "search_from st < length words"
  shows "\<exists>st' b. scene_step words st (i, sl, phrase) = Inr st'
       \<and> search_from st' < length words
       \<and> boundaries st' = boundaries st @ [b]
       \<and> number b = i + 1 \<and> slug b = sl \<and> opening_phrase b = phrase
       \<and> duration_seconds b = None
       \<and> last_end st' = start_seconds b"
proof -
  from assms have "split_whitespace phrase \<noteq> [] \<or> search_from st \<noteq> length words"
    by simp
  then obtain r where r: "find_phrase_in_transcript phrase words (search_from st) = Inr r"
    using find_phrase_total by blast
  show ?thesis
  proof (cases r)
    case None
    with r assms show ?thesis by (simp add: scene_step_miss)
  next
    case (Some t)
    with r assms show ?thesis by (simp add: scene_step_match next_search_from_in_range)
  qed
qed


text \<open>The loop never raises once the cursor is an index of the transcript; it appends one
  boundary per scene and keeps \<^verbatim>\<open>last_end\<close> equal to the start of the last boundary.\<close>

lemma assemble_facts:
  assumes "search_from st < length words"
  shows "\<exists>st' ext. assemble words st (enumerate n scenes) = Inr st'
       \<and> search_from st' < length words
       \<and> boundaries st' = boundaries st @ ext
       \<and> length ext = length scenes
       \<and> (\<forall>b \<in> set ext. duration_seconds b = None)
       \<and> (scenes \<noteq> [] \<longrightarrow> last_end st' = start_seconds (last ext))
       \<and> (scenes = [] \<longrightarrow> st' = st)"
  using assms
proof (induction scenes arbitrary: st n)
  case Nil
  then show ?case by simp
next
  case (Cons sc scenes)
  obtain sl phrase where sc: "sc = (sl, phrase)" by (cases sc)
  from scene_step_facts [OF Cons.prems, of n sl phrase]
  obtain st1 b where s1: "scene_step words st (n, sl, phrase) = Inr st1"
    and c1: "search_from st1 < length words"
    and b1: "boundaries st1 = boundaries st @ [b]"
    and d1: "duration_seconds b = None"
    and l1: "last_end st1 = start_seconds b"
    by blast
  from Cons.IH [OF c1, of "Suc n"]
  obtain st2 ext where s2: "assemble words st1 (enumerate (Suc n) scenes) = Inr st2"
    and c2: "search_from st2 < length words"
    and b2: "boundaries st2 = boundaries st1 @ ext"
    and n2: "length ext = length scenes"
    and d2: "\<forall>b \<in> set ext. duration_seconds b = None"
    and l2: "scenes \<noteq> [] \<longrightarrow> last_end st2 = start_seconds (last ext)"
    and e2: "scenes = [] \<longrightarrow> st2 = st1"
    by blast
  have run: "assemble words st (enumerate n (sc # scenes)) = Inr st2"
    using s1 s2 sc by simp
  have last: "last_end st2 = start_seconds (last (b # ext))"
  proof (cases "scenes = []")
    case True
    with e2 n2 l1 show ?thesis by simp
  next
    case False
    with n2 have "ext \<noteq> []" by auto
    with False l2 show ?thesis by simp
  qed
  show ?case
    using run c2 b1 b2 n2 d1 d2 last
    by (intro exI [of _ st2] exI [of _ "b # ext"]) simp
qed

text \<open>Two runs over the same scenes from states with the same cursor and the same
  \<^verbatim>\<open>last_end\<close>, the second counting scenes from one later: the same boundaries but for
  the scene number, the same diagnostics, the same final cursor.\<close>

lemma scene_step_shift:
  assumes "search_from s2 = search_from s1" and "last_end s2 = last_end s1"
    and "scene_step words s1 (n, sl, phrase) = Inr t1"
  shows "\<exists>t2 b. scene_step words s2 (Suc n, sl, phrase) = Inr t2
       \<and> search_from t2 = search_from t1 \<and> last_end t2 = last_end t1
       \<and> boundaries t1 = boundaries s1 @ [b]
       \<and> boundaries t2 = boundaries s2 @ [b\<lparr>number := Suc (number b)\<rparr>]"
proof (cases "find_phrase_in_transcript phrase words (search_from s1)")
  case (Inl e)
  with assms(3) show ?thesis by (simp add: scene_step_def)
next
  case (Inr r)
  show ?thesis
  proof (cases r)
    case None
    with Inr assms show ?thesis
      by (auto simp add: scene_step_miss)
  next
    case (Some t)
    with Inr assms show ?thesis
      by (auto simp add: scene_step_match)
  qed
qed

lemma assemble_shift:
  assumes "search_from s2 = search_from s1" and "last_end s2 = last_end s1"
    and "assemble words s1 (enumerate n scenes) = Inr f1"
  shows "\<exists>f2 ext. assemble words s2 (enumerate (Suc n) scenes) = Inr f2
       \<and> search_from f2 = search_from f1 \<and> last_end f2 = last_end f1
       \<and> boundaries f1 = boundaries s1 @ ext
       \<and> boundaries f2 = boundaries s2 @ map (\<lambda>b. b\<lparr>number := Suc (number b)\<rparr>) ext"
  using assms
proof (induction scenes arbitrary: s1 s2 n)
  case Nil
  then show ?case by simp
next
  case (Cons sc scenes)
  obtain sl phrase where sc: "sc = (sl, phrase)" by (cases sc)
  from Cons.prems(3) sc obtain t1 where t1: "scene_step words s1 (n, sl, phrase) = Inr t1"
    and r1: "assemble words t1 (enumerate (Suc n) scenes) = Inr f1"
    by (auto split: sum.splits)
  from scene_step_shift [OF Cons.prems(1,2) t1]
  obtain t2 b where t2: "scene_step words s2 (Suc n, sl, phrase) = Inr t2"
    and c: "search_from t2 = search_from t1" and l: "last_end t2 = last_end t1"
    and b1: "boundaries t1 = boundaries s1 @ [b]"
    and b2: "boundaries t2 = boundaries s2 @ [b\<lparr>number := Suc (number b)\<rparr>]"
    by blast
  from Cons.IH [OF c l r1]
  obtain f2 ext where f2: "assemble words t2 (enumerate (Suc (Suc n)) scenes) = Inr f2"
    and c2: "search_from f2 = search_from f1" and l2: "last_end f2 = last_end f1"
    and e1: "boundaries f1 = boundaries t1 @ ext"
    and e2: "boundaries f2 = boundaries t2 @ map (\<lambda>b. b\<lparr>number := Suc (number b)\<rparr>) ext"
    by blast
  have run: "assemble words s2 (enumerate (Suc n) (sc # scenes)) = Inr f2"
    using t2 f2 sc by simp
  show ?case
    using run c2 l2 e1 e2 b1 b2
    by (intro exI [of _ f2] exI [of _ "b # ext"]) simp
qed



lemma initial_cursor: "words \<noteq> [] \<Longrightarrow> search_from initial_state < length words"
  by (simp add: initial_state_def)




subsection \<open>Durations\<close>

lemma set_duration_length: "length (set_duration T bs i) = length bs"
  by (simp add: set_duration_def)

lemma durations_upto:
  assumes "k \<le> length bs"
  shows "length (fold (\<lambda>i acc. set_duration T acc i) [0 ..< k] bs) = length bs
       \<and> (\<forall>i < length bs.
            fold (\<lambda>i acc. set_duration T acc i) [0 ..< k] bs ! i =
              (if i < k
               then (bs ! i)\<lparr>duration_seconds :=
                      Some (if i + 1 < length bs
                            then round2 (start_seconds (bs ! (i + 1)) - start_seconds (bs ! i))
                            else round2 (T - start_seconds (bs ! i)))\<rparr>
               else bs ! i))"
  using assms
proof (induction k)
  case 0
  then show ?case by simp
next
  case (Suc k)
  let ?r = "fold (\<lambda>i acc. set_duration T acc i) [0 ..< k] bs"
  from Suc have len: "length ?r = length bs"
    and nth: "\<And>i. i < length bs \<Longrightarrow> ?r ! i =
              (if i < k
               then (bs ! i)\<lparr>duration_seconds :=
                      Some (if i + 1 < length bs
                            then round2 (start_seconds (bs ! (i + 1)) - start_seconds (bs ! i))
                            else round2 (T - start_seconds (bs ! i)))\<rparr>
               else bs ! i)"
    by simp_all
  from Suc.prems have k: "k < length bs" by simp
  have unfold: "fold (\<lambda>i acc. set_duration T acc i) [0 ..< Suc k] bs = set_duration T ?r k"
    by simp
  have rk: "?r ! k = bs ! k" using nth [OF k] by simp
  have rk1: "?r ! (k + 1) = bs ! (k + 1)" if "k + 1 < length bs"
    using nth [OF that] by simp
  have new: "set_duration T ?r k =
      ?r[k := (bs ! k)\<lparr>duration_seconds :=
                 Some (if k + 1 < length bs
                       then round2 (start_seconds (bs ! (k + 1)) - start_seconds (bs ! k))
                       else round2 (T - start_seconds (bs ! k)))\<rparr>]"
    using rk rk1 len by (simp add: set_duration_def)
  show ?case
  proof (intro conjI allI impI)
    show "length (fold (\<lambda>i acc. set_duration T acc i) [0 ..< Suc k] bs) = length bs"
      using len by (simp add: set_duration_length)
  next
    fix i assume i: "i < length bs"
    show "fold (\<lambda>i acc. set_duration T acc i) [0 ..< Suc k] bs ! i =
              (if i < Suc k
               then (bs ! i)\<lparr>duration_seconds :=
                      Some (if i + 1 < length bs
                            then round2 (start_seconds (bs ! (i + 1)) - start_seconds (bs ! i))
                            else round2 (T - start_seconds (bs ! i)))\<rparr>
               else bs ! i)"
    proof (cases "i = k")
      case True
      with k len show ?thesis
        by (simp only: unfold new) simp
    next
      case False
      with i len nth [OF i] show ?thesis
        by (simp only: unfold new) (simp add: less_Suc_eq)
    qed
  qed
qed

lemma calculate_durations_length: "length (calculate_durations T bs) = length bs"
  using durations_upto [of "length bs" bs T] by (simp add: calculate_durations_def)

lemma calculate_durations_nth:
  assumes "i < length bs"
  shows "calculate_durations T bs ! i =
     (bs ! i)\<lparr>duration_seconds :=
        Some (if i + 1 < length bs
              then round2 (start_seconds (bs ! (i + 1)) - start_seconds (bs ! i))
              else round2 (T - start_seconds (bs ! i)))\<rparr>"
  using durations_upto [of "length bs" bs T] assms by (simp add: calculate_durations_def)

lemma extract_boundaries_Inr:
  assumes "extract_boundaries words phrases = Inr (bs, diagnostics)"
  shows "words \<noteq> [] \<and> phrases \<noteq> []
       \<and> (\<exists>st. assemble words initial_state (enumerate 0 phrases) = Inr st
              \<and> bs = calculate_durations (end_time (last words)) (boundaries st)
              \<and> diagnostics = stderr st)"
  using assms
  by (auto simp add: extract_boundaries_def total_duration_of_def split: if_splits sum.splits)

lemma extract_boundaries_total:
  assumes "words \<noteq> []" and "phrases \<noteq> []"
  shows "\<exists>st. assemble words initial_state (enumerate 0 phrases) = Inr st
       \<and> length (boundaries st) = length phrases
       \<and> extract_boundaries words phrases =
           Inr (calculate_durations (end_time (last words)) (boundaries st), stderr st)"
proof -
  from assemble_facts [OF initial_cursor [OF assms(1)], of 0 phrases]
  obtain st ext where st: "assemble words initial_state (enumerate 0 phrases) = Inr st"
    and "boundaries st = boundaries initial_state @ ext" and "length ext = length phrases"
    by blast
  then have "length (boundaries st) = length phrases"
    by (simp add: initial_state_def)
  with st assms show ?thesis
    by (simp add: extract_boundaries_def total_duration_of_def)
qed




text \<open>
  Claim C10. If the phrase of the first scene is not found anywhere in a non-empty
  transcript, the run returns a boundary list whose first boundary is that scene's and
  starts at 0, whatever the start time of the first transcript word.
\<close>

theorem first_scene_not_found_starts_at_zero:
  assumes "words \<noteq> []" and "find_phrase_in_transcript phrase words 0 = Inr None"
  shows "\<exists>b bs diagnostics.
       extract_boundaries words ((sl, phrase) # rest) = Inr (b # bs, diagnostics)
     \<and> slug b = sl \<and> start_seconds b = 0"
proof -
  from assms(2) have miss: "find_phrase_in_transcript phrase words (search_from initial_state) = Inr None"
    by (simp add: initial_state_def)
  have pre: "assemble words initial_state (enumerate 0 []) = Inr initial_state"
    by simp
  from extract_boundaries_total [OF assms(1), of "(sl, phrase) # rest"]
  obtain st where st: "assemble words initial_state (enumerate 0 ((sl, phrase) # rest)) = Inr st"
    and len: "length (boundaries st) = length ((sl, phrase) # rest)"
    and ex: "extract_boundaries words ((sl, phrase) # rest) =
           Inr (calculate_durations (end_time (last words)) (boundaries st), stderr st)"
    by auto
  let ?s1 = "\<lparr>boundaries = boundaries initial_state @
                 [\<lparr>number = 0 + 1, slug = sl, start_seconds = last_end initial_state,
                   opening_phrase = phrase, duration_seconds = None\<rparr>],
              last_end = last_end initial_state,
              search_from = search_from initial_state,
              stderr = stderr initial_state @ [warning_line sl phrase]\<rparr>"
  have step: "scene_step words initial_state (0, sl, phrase) = Inr ?s1"
    using miss by (rule scene_step_miss)
  with st have r: "assemble words ?s1 (enumerate (Suc 0) rest) = Inr st"
    by simp
  from assemble_shift [OF refl refl r] obtain ext where "boundaries st = boundaries ?s1 @ ext"
    by blast
  then have hd: "boundaries st ! 0 = \<lparr>number = 1, slug = sl, start_seconds = 0,
                   opening_phrase = phrase, duration_seconds = None\<rparr>"
    by (simp add: initial_state_def)
  let ?bs = "calculate_durations (end_time (last words)) (boundaries st)"
  from len have pos: "0 < length (boundaries st)" by simp
  then have "?bs \<noteq> []"
    using calculate_durations_length [of "end_time (last words)" "boundaries st"] by auto
  then obtain b bs where cons: "?bs = b # bs" by (cases ?bs) auto
  then have "b = ?bs ! 0" by simp
  with pos hd have "slug b = sl \<and> start_seconds b = 0"
    by (simp add: calculate_durations_nth)
  with ex cons show ?thesis by simp
qed

theorem first_scene_not_found_starts_at_zero_witness:
  "\<exists>b bs diagnostics.
     extract_boundaries [\<lparr>word = ''alpha'', start = 1 / 2, end_time = 1\<rparr>]
       ((''01-b'', ''beta'') # []) = Inr (b # bs, diagnostics)
     \<and> slug b = ''01-b'' \<and> start_seconds b = 0"
proof -
  have h1: "[\<lparr>word = ''alpha'', start = 1 / 2, end_time = 1\<rparr>] \<noteq> []"
    by simp
  have h2: "find_phrase_in_transcript ''beta'' [\<lparr>word = ''alpha'', start = 1 / 2, end_time = 1\<rparr>] 0
              = Inr None"
    by code_simp
  show ?thesis
    by (rule first_scene_not_found_starts_at_zero [OF h1 h2])
qed

subsection \<open>The sum of the durations\<close>



lemma sum_durations_set:
  assumes "\<forall>b \<in> set bs. duration_seconds b \<noteq> None"
  shows "sum_durations bs = Inr (sum_list (map (\<lambda>b. the (duration_seconds b)) bs))"
  using assms by (induction bs) (auto simp add: get_duration_def)

lemma calculate_durations_set:
  "\<forall>b \<in> set (calculate_durations T bs). duration_seconds b \<noteq> None"
proof
  fix b assume "b \<in> set (calculate_durations T bs)"
  then obtain i where "i < length (calculate_durations T bs)" "b = calculate_durations T bs ! i"
    by (auto simp add: in_set_conv_nth)
  then show "duration_seconds b \<noteq> None"
    by (simp add: calculate_durations_length calculate_durations_nth)
qed






subsection \<open>Formatter\<close>

lemma split_on_nonempty: "split_on sep s \<noteq> []"
  by (induction s) (auto split: list.splits)

lemma slug_name_parts_total: "\<exists>num name_parts. slug_name_parts b = Inr (num, name_parts)"
proof (cases "split_on (CHR ''-'') (slug b)")
  case Nil
  then show ?thesis using split_on_nonempty [of "CHR ''-''" "slug b"] by simp
next
  case (Cons p ps)
  then show ?thesis by (simp add: slug_name_parts_def)
qed

lemma typescript_entry_component:
  assumes "duration_seconds b \<noteq> None"
  shows "\<exists>entry num name_parts. typescript_entry rt b = Inr entry
       \<and> slug_name_parts b = Inr (num, name_parts)
       \<and> ''    component: '' @ component_name num name_parts @ '','' \<in> set entry"
proof -
  from slug_name_parts_total obtain num name_parts
    where parts: "slug_name_parts b = Inr (num, name_parts)"
    by blast
  from assms obtain d where d: "get_duration b = Inr d"
    by (auto simp add: get_duration_def)
  from parts d show ?thesis
    by (simp add: typescript_entry_def)
qed

lemma typescript_loop_lines:
  assumes "\<forall>b \<in> set bs. duration_seconds b \<noteq> None"
  shows "\<exists>lines. typescript_loop rt acc bs = Inr lines
       \<and> set acc \<subseteq> set lines
       \<and> (\<forall>b \<in> set bs. \<exists>num name_parts. slug_name_parts b = Inr (num, name_parts)
             \<and> ''    component: '' @ component_name num name_parts @ '','' \<in> set lines)"
  using assms
proof (induction bs arbitrary: acc)
  case Nil
  then show ?case by simp
next
  case (Cons b bs)
  from Cons.prems have "duration_seconds b \<noteq> None" by simp
  from typescript_entry_component [OF this, of rt]
  obtain entry num name_parts where entry: "typescript_entry rt b = Inr entry"
    and parts: "slug_name_parts b = Inr (num, name_parts)"
    and line: "''    component: '' @ component_name num name_parts @ '','' \<in> set entry"
    by blast
  from Cons.prems have "\<forall>b \<in> set bs. duration_seconds b \<noteq> None" by simp
  from Cons.IH [OF this, of "acc @ entry"]
  obtain lines where loop: "typescript_loop rt (acc @ entry) bs = Inr lines"
    and sub: "set (acc @ entry) \<subseteq> set lines"
    and rest: "\<forall>b \<in> set bs. \<exists>num name_parts. slug_name_parts b = Inr (num, name_parts)
             \<and> ''    component: '' @ component_name num name_parts @ '','' \<in> set lines"
    by blast
  from entry loop have run: "typescript_loop rt acc (b # bs) = Inr lines"
    by simp
  from sub line have here: "''    component: '' @ component_name num name_parts @ '','' \<in> set lines"
    by auto
  from sub have acc: "set acc \<subseteq> set lines" by simp
  show ?case
  proof (intro exI [of _ lines] conjI ballI)
    show "typescript_loop rt acc (b # bs) = Inr lines" by (rule run)
    show "set acc \<subseteq> set lines" by (rule acc)
  next
    fix c assume "c \<in> set (b # bs)"
    then consider "c = b" | "c \<in> set bs" by auto
    then show "\<exists>num name_parts. slug_name_parts c = Inr (num, name_parts)
             \<and> ''    component: '' @ component_name num name_parts @ '','' \<in> set lines"
    proof cases
      case 1
      with parts here show ?thesis by blast
    next
      case 2
      with rest show ?thesis by blast
    qed
  qed
qed

text \<open>
  Claim C7 (as amended). The TypeScript formatter validates no slug and has no
  "unsupported slug shape" error: for every boundary list whose durations are set, as
  the assembler returns it, and whatever the slugs are, it returns a rendering, and for
  each boundary the rendering has the line \<^verbatim>\<open>component: Scene<num><Parts>,\<close> built from the
  dash-separated parts of the slug as they are.
\<close>

theorem format_typescript_accepts_every_slug:
  assumes "\<forall>b \<in> set bs. duration_seconds b \<noteq> None"
  shows "\<exists>lines. format_typescript rt bs = Inr (join [newline] (lines @ [''];'']))
       \<and> (\<forall>b \<in> set bs. \<exists>num name_parts. slug_name_parts b = Inr (num, name_parts)
             \<and> ''    component: '' @ component_name num name_parts @ '','' \<in> set lines)"
proof -
  from typescript_loop_lines [OF assms, of rt typescript_header]
  obtain lines where loop: "typescript_loop rt typescript_header bs = Inr lines"
    and comp: "\<forall>b \<in> set bs. \<exists>num name_parts. slug_name_parts b = Inr (num, name_parts)
             \<and> ''    component: '' @ component_name num name_parts @ '','' \<in> set lines"
    by blast
  from loop have "format_typescript rt bs = Inr (join [newline] (lines @ [''];'']))"
    by (simp add: format_typescript_def)
  with comp show ?thesis by blast
qed

theorem format_typescript_accepts_every_slug_witness:
  "\<exists>lines. format_typescript
       \<lparr>format_2f = (\<lambda>x. if x = 0 then ''0.00'' else ''5.00''),
        str_float = (\<lambda>x. ''5.0''),
        json_dumps = (\<lambda>bs. [])\<rparr>
       [\<lparr>number = 1, slug = ''01-kitchen-opening'', start_seconds = 0,
         opening_phrase = ''The kitchen was quiet'', duration_seconds = Some 5\<rparr>]
     = Inr (join [newline] (lines @ [''];'']))
     \<and> ''    component: Scene01KitchenOpening,'' \<in> set lines"
proof -
  let ?rt = "\<lparr>format_2f = (\<lambda>x. if x = 0 then ''0.00'' else ''5.00''),
              str_float = (\<lambda>x. ''5.0''),
              json_dumps = (\<lambda>bs. [])\<rparr>"
  let ?b = "\<lparr>number = 1, slug = ''01-kitchen-opening'', start_seconds = 0,
             opening_phrase = ''The kitchen was quiet'', duration_seconds = Some 5\<rparr>"
  have h: "\<forall>b \<in> set [?b]. duration_seconds b \<noteq> None"
    by simp
  from format_typescript_accepts_every_slug [OF h, of ?rt]
  obtain lines where out: "format_typescript ?rt [?b] = Inr (join [newline] (lines @ [''];'']))"
    and comp: "\<exists>num name_parts. slug_name_parts ?b = Inr (num, name_parts)
             \<and> ''    component: '' @ component_name num name_parts @ '','' \<in> set lines"
    by auto
  have parts: "slug_name_parts ?b = Inr (''01'', [''kitchen'', ''opening''])"
    by code_simp
  have name: "component_name ''01'' [''kitchen'', ''opening''] = ''Scene01KitchenOpening''"
    by code_simp
  from comp parts name have "''    component: Scene01KitchenOpening,'' \<in> set lines"
    by auto
  with out show ?thesis by blast
qed

text \<open>
  Claim C7 as stated fails: no slug is rejected. A slug with a space and an exclamation
  mark is rendered, and the component emitted for it is not an identifier.
\<close>

theorem format_typescript_emits_malformed_component:
  "format_typescript
     \<lparr>format_2f = (\<lambda>x. if x = 0 then ''0.00'' else ''1.00''),
      str_float = (\<lambda>x. ''1.0''),
      json_dumps = (\<lambda>bs. [])\<rparr>
     [\<lparr>number = 1, slug = ''my scene!'', start_seconds = 0,
       opening_phrase = ''Hello'', duration_seconds = Some 1\<rparr>] =
   Inr (join [newline]
     [''// Scene timing data (at 30fps)'',
      ''// Timings extracted from full-narration.wav transcript'',
      ''const FPS = 30;'',
      ''const scenes = ['',
      ''  {'',
      ''    number: 1,'',
      ''    slug: '' @ [apostrophe] @ ''my scene!'' @ [apostrophe] @ '','',
      ''    durationSeconds: 1.0,  // 0.00s - 1.00s'',
      ''    component: Scene01My Scene!,'',
      ''  },'',
      ''];''])"
  by code_simp

subsection \<open>\<^verbatim>\<open>main\<close>\<close>

lemma extract_boundaries_durations_set:
  assumes "extract_boundaries words phrases = Inr (bs, diagnostics)"
  shows "\<exists>total. sum_durations bs = Inr total"
proof -
  from extract_boundaries_Inr [OF assms]
  obtain st :: assembler_state
    where "bs = calculate_durations (end_time (last words)) (boundaries st)"
    by blast
  then have "\<forall>b \<in> set bs. duration_seconds b \<noteq> None"
    using calculate_durations_set by blast
  then show ?thesis
    by (simp add: sum_durations_set)
qed

text \<open>
  Claim C9. When both \<^verbatim>\<open>--json\<close> and \<^verbatim>\<open>--typescript\<close> are given, \<^verbatim>\<open>main\<close> exits with
  code 1 if a path is missing or the transcript or the scene set is empty, and otherwise
  prints the JSON rendering of the boundaries; the TypeScript formatter is not called.
\<close>

theorem json_flag_takes_precedence:
  assumes "json call" and "typescript call"
  shows "main rt call =
     (if \<not> scenes_dir_exists call
      then Inl (SystemExit 1 (''Error: Scenes directory not found: '' @ scenes_dir call))
      else if \<not> transcript_exists call
      then Inl (SystemExit 1 (''Error: Transcript not found: '' @ transcript_path call))
      else (case extract_boundaries (loaded_words call) (loaded_phrases call) of
              Inl e \<Rightarrow> Inl e
            | Inr (bs, diagnostics) \<Rightarrow> Inr (Json (format_json rt bs), diagnostics)))"
proof (cases "extract_boundaries (loaded_words call) (loaded_phrases call)")
  case (Inl e)
  then show ?thesis by (simp add: main_def)
next
  case (Inr r)
  obtain bs diagnostics where r: "r = (bs, diagnostics)" by (cases r)
  with Inr obtain total where "sum_durations bs = Inr total"
    using extract_boundaries_durations_set by blast
  with Inr r assms show ?thesis
    by (simp add: main_def print_output_def)
qed

theorem json_flag_takes_precedence_witness:
  "main
     \<lparr>format_2f = (\<lambda>x. ''0.50''),
      str_float = (\<lambda>x. ''0.5''),
      json_dumps = (\<lambda>bs. concat (map slug bs))\<rparr>
     \<lparr>scenes_dir = ''scenes'', transcript_path = ''full-narration.json'',
      json = True, typescript = True,
      scenes_dir_exists = True, transcript_exists = True,
      loaded_words = [\<lparr>word = ''Hello'', start = 1 / 2, end_time = 1\<rparr>],
      loaded_phrases = [(''01-intro'', ''Hello'')]\<rparr>
   = Inr (Json ''01-intro'', [])"
proof -
  let ?rt = "\<lparr>format_2f = (\<lambda>x. ''0.50''),
              str_float = (\<lambda>x. ''0.5''),
              json_dumps = (\<lambda>bs. concat (map slug bs))\<rparr>"
  let ?call = "\<lparr>scenes_dir = ''scenes'', transcript_path = ''full-narration.json'',
                json = True, typescript = True,
                scenes_dir_exists = True, transcript_exists = True,
                loaded_words = [\<lparr>word = ''Hello'', start = 1 / 2, end_time = 1\<rparr>],
                loaded_phrases = [(''01-intro'', ''Hello'')]\<rparr>"
  have h1: "json ?call" by simp
  have h2: "typescript ?call" by simp
  have ex: "extract_boundaries (loaded_words ?call) (loaded_phrases ?call) =
      Inr ([\<lparr>number = 1, slug = ''01-intro'', start_seconds = 1 / 2,
              opening_phrase = ''Hello'', duration_seconds = Some (1 / 2)\<rparr>], [])"
    by code_simp
  from json_flag_takes_precedence [OF h1 h2, of ?rt] ex show ?thesis
    by (simp add: format_json_def)
qed

end
